theory Spec2Isabelle
  imports Main "HOL-Library.Word" "HOL-Library.Extended_Nat"
begin

section \<open>The API key replacement workflow of the settings page\<close>

text \<open>
  The source is \<^verbatim>\<open>src/app/(home)/settings/page.tsx\<close>: three string utilities
  (\<^verbatim>\<open>maskKey\<close>, \<^verbatim>\<open>firstDiff\<close>, \<^verbatim>\<open>levenshtein\<close>) and the component
  \<^verbatim>\<open>PrivacySettings\<close> with the state of the replacement dialog, the values derived from
  it on every render, and its event handlers.

  A JavaScript string is a sequence of 16-bit code units; \<^verbatim>\<open>s.length\<close>, \<^verbatim>\<open>s[i]\<close>,
  \<^verbatim>\<open>s.slice\<close> and \<^verbatim>\<open>===\<close> all work on code units. \<^verbatim>\<open>firstDiff\<close> and \<^verbatim>\<open>levenshtein\<close>
  only compare code units, so their models are polymorphic in the unit type. The numbers
  these functions compute are lengths, indices and counts, far below \<open>2 ^ 53\<close>, where
  JavaScript's numbers are exact: they are modelled by \<open>nat\<close> and \<open>int\<close>.
\<close>

subsection \<open>Strings\<close>

type_synonym code_unit = "16 word"
type_synonym js_string = "code_unit list"

text \<open>The code units of an ASCII literal.\<close>

definition str :: "string \<Rightarrow> js_string" where
  "str cs = map (\<lambda>c. of_nat (of_char c)) cs"

text \<open>\<^verbatim>\<open>s[i]\<close>: the unit at \<open>i\<close>, or \<^verbatim>\<open>undefined\<close> (here \<open>None\<close>) out of range.\<close>

definition js_at :: "'a list \<Rightarrow> nat \<Rightarrow> 'a option" where
  "js_at s i = (if i < length s then Some (s ! i) else None)"

text \<open>
  \<^verbatim>\<open>s.slice(start, end)\<close> for non-negative integers: both bounds are clipped to the
  length, and the result is empty when \<open>end \<le> start\<close>.
\<close>

definition js_slice :: "'a list \<Rightarrow> nat \<Rightarrow> nat \<Rightarrow> 'a list" where
  "js_slice s start fin = drop (min start (length s)) (take (min fin (length s)) s)"

text \<open>
  \<^verbatim>\<open>s.slice(k)\<close> for an integer \<open>k\<close>: a negative \<open>k\<close> counts from the end, and the
  start is clipped to \<open>[0, length]\<close>. JavaScript's \<^verbatim>\<open>-0\<close> is the integer \<open>0\<close>, which is
  not negative.
\<close>

definition js_slice_from :: "'a list \<Rightarrow> int \<Rightarrow> 'a list" where
  "js_slice_from s k =
     (let len = int (length s);
          from = (if k < 0 then max (len + k) 0 else min k len)
      in drop (nat from) s)"

text \<open>\<^verbatim>\<open>x && y\<close> and \<^verbatim>\<open>x || y\<close> on booleans: the right operand is the value only
  when the left one does not decide.\<close>

definition js_and :: "bool \<Rightarrow> bool \<Rightarrow> bool" where
  "js_and x y = (if x then y else x)"

definition js_or :: "bool \<Rightarrow> bool \<Rightarrow> bool" where
  "js_or x y = (if x then x else y)"

subsection \<open>maskKey\<close>

text \<open>
  \<^verbatim>\<open>function maskKey(key?: string | null, suffix = 4)\<close>. An absent key (\<^verbatim>\<open>undefined\<close>
  or \<^verbatim>\<open>null\<close>) is \<open>None\<close>; \<^verbatim>\<open>!key\<close> holds for an absent and for an empty key. The
  suffix is taken as an integer.
\<close>

definition placeholder :: js_string where
  "placeholder = [0x2014]"

definition prefix_marker :: js_string where
  "prefix_marker = [0x73, 0x6B, 0x2D, 0x2026]"

definition maskKey :: "js_string option \<Rightarrow> int \<Rightarrow> js_string" where
  "maskKey key suffix =
     (case key of
        None \<Rightarrow> placeholder
      | Some k \<Rightarrow>
          if k = [] then placeholder
          else (let vis = js_slice_from k (- max 0 (min suffix (int (length k))))
                in prefix_marker @ vis))"


subsection \<open>firstDiff\<close>

record 'a diff_report =
  index :: nat
  left :: "'a list"
  right :: "'a list"

function firstDiff_loop :: "'a list \<Rightarrow> 'a list \<Rightarrow> nat \<Rightarrow> nat \<Rightarrow> 'a diff_report option" where
  "firstDiff_loop a b mx i =
     (if i < mx then
        (if js_at a i \<noteq> js_at b i then
           Some \<lparr>index = i,
                 left = js_slice a (nat (max 0 (int i - 3))) (min mx (i + 4)),
                 right = js_slice b (nat (max 0 (int i - 3))) (min mx (i + 4))\<rparr>
         else firstDiff_loop a b mx (i + 1))
      else None)"
  by pat_completeness auto
termination
  by (relation "measure (\<lambda>(a, b, mx, i). mx - i)") auto

definition firstDiff :: "'a list \<Rightarrow> 'a list \<Rightarrow> 'a diff_report option" where
  "firstDiff a b = firstDiff_loop a b (max (length a) (length b)) 0"

subsection \<open>levenshtein\<close>

text \<open>
  The table \<^verbatim>\<open>dp\<close> is an array of \<open>m + 1\<close> rows of \<open>n + 1\<close> numbers, all zero at first
  (\<^verbatim>\<open>Array.from\<close> builds a fresh row for each index, so no two rows are one array),
  and every loop of the source writes into it. Each loop is a recursive function over its
  counter that passes the table on. All reads and writes are within the table: the
  counters satisfy \<open>i \<le> m\<close> and \<open>j \<le> n\<close>.
\<close>

type_synonym table = "nat list list"

text \<open>\<^verbatim>\<open>dp[i][j] = v\<close>\<close>

definition set_cell :: "table \<Rightarrow> nat \<Rightarrow> nat \<Rightarrow> nat \<Rightarrow> table" where
  "set_cell dp i j v = dp[i := (dp ! i)[j := v]]"

text \<open>\<^verbatim>\<open>for (let i = 0; i <= m; i++) dp[i][0] = i;\<close>\<close>

function init_column :: "nat \<Rightarrow> nat \<Rightarrow> table \<Rightarrow> table" where
  "init_column m i dp =
     (if i \<le> m then init_column m (i + 1) (set_cell dp i 0 i) else dp)"
  by pat_completeness auto
termination
  by (relation "measure (\<lambda>(m, i, dp). m + 1 - i)") auto

text \<open>\<^verbatim>\<open>for (let j = 0; j <= n; j++) dp[0][j] = j;\<close>\<close>

function init_row :: "nat \<Rightarrow> nat \<Rightarrow> table \<Rightarrow> table" where
  "init_row n j dp =
     (if j \<le> n then init_row n (j + 1) (set_cell dp 0 j j) else dp)"
  by pat_completeness auto
termination
  by (relation "measure (\<lambda>(n, j, dp). n + 1 - j)") auto

text \<open>The value the body of the inner loop computes for \<^verbatim>\<open>dp[i][j]\<close>.\<close>

definition cell_value :: "'a list \<Rightarrow> 'a list \<Rightarrow> table \<Rightarrow> nat \<Rightarrow> nat \<Rightarrow> nat" where
  "cell_value a b dp i j =
     (let cost = (if js_at a (i - 1) = js_at b (j - 1) then 0 else 1)
      in min (min (dp ! (i - 1) ! j + 1) (dp ! i ! (j - 1) + 1))
             (dp ! (i - 1) ! (j - 1) + cost))"

text \<open>\<^verbatim>\<open>for (let j = 1; j <= n; j++) { ... }\<close>, entered with \<open>j = 1\<close>.\<close>

function inner_loop :: "'a list \<Rightarrow> 'a list \<Rightarrow> nat \<Rightarrow> nat \<Rightarrow> nat \<Rightarrow> table \<Rightarrow> table" where
  "inner_loop a b n i j dp =
     (if j \<le> n then inner_loop a b n i (j + 1) (set_cell dp i j (cell_value a b dp i j))
      else dp)"
  by pat_completeness auto
termination
  by (relation "measure (\<lambda>(a, b, n, i, j, dp). n + 1 - j)") auto

text \<open>\<^verbatim>\<open>for (let i = 1; i <= m; i++) { for ... }\<close>, entered with \<open>i = 1\<close>.\<close>

function outer_loop :: "'a list \<Rightarrow> 'a list \<Rightarrow> nat \<Rightarrow> nat \<Rightarrow> nat \<Rightarrow> table \<Rightarrow> table" where
  "outer_loop a b m n i dp =
     (if i \<le> m then outer_loop a b m n (i + 1) (inner_loop a b n i 1 dp) else dp)"
  by pat_completeness auto
termination
  by (relation "measure (\<lambda>(a, b, m, n, i, dp). m + 1 - i)") auto

text \<open>The table after the three loops.\<close>

definition lev_table :: "'a list \<Rightarrow> 'a list \<Rightarrow> table" where
  "lev_table a b =
     (let m = length a; n = length b;
          dp = replicate (m + 1) (replicate (n + 1) 0);
          dp = init_column m 0 dp;
          dp = init_row n 0 dp
      in outer_loop a b m n 1 dp)"

definition levenshtein :: "'a list \<Rightarrow> 'a list \<Rightarrow> nat" where
  "levenshtein a b =
     (let m = length a; n = length b
      in if m = 0 then n
         else if n = 0 then m
         else lev_table a b ! m ! n)"

subsection \<open>The component: state, derived values, handlers\<close>

text \<open>
  The five \<^verbatim>\<open>useState\<close> cells of the dialog; \<open>is_open\<close> is the cell \<^verbatim>\<open>open\<close>. The
  stored key \<^verbatim>\<open>apiKey\<close> belongs to the settings store, which is not part of this file:
  the derived values take it as a parameter, absent (\<open>None\<close>) or a string. A handler
  reads the values of the render it was created in and its updates take effect together,
  so an event is one transition from the state of that render to the next state.
\<close>

record modal_state =
  is_open :: bool
  newKey :: js_string
  confirmKey :: js_string
  ackReplace :: bool
  forceSmallChange :: bool

definition bothEntered :: "modal_state \<Rightarrow> bool" where
  "bothEntered s = js_and (length (newKey s) > 0) (length (confirmKey s) > 0)"

definition matches :: "modal_state \<Rightarrow> bool" where
  "matches s = js_and (bothEntered s) (newKey s = confirmKey s)"

text \<open>\<^verbatim>\<open>!apiKey\<close>\<close>

definition absent :: "js_string option \<Rightarrow> bool" where
  "absent key = (case key of None \<Rightarrow> True | Some k \<Rightarrow> k = [])"

text \<open>\<^verbatim>\<open>Infinity\<close> is \<open>\<infinity>\<close>.\<close>

definition distanceFromCurrent :: "js_string option \<Rightarrow> modal_state \<Rightarrow> enat" where
  "distanceFromCurrent apiKey s =
     (case apiKey of
        None \<Rightarrow> \<infinity>
      | Some k \<Rightarrow> if js_or (k = []) (newKey s = []) then \<infinity>
                  else enat (levenshtein k (newKey s)))"

definition SMALL_CHANGE_THRESHOLD :: nat where
  "SMALL_CHANGE_THRESHOLD = 2"

definition isFinite :: "enat \<Rightarrow> bool" where
  "isFinite d = (d \<noteq> \<infinity>)"

definition suspiciousSmallEdit :: "js_string option \<Rightarrow> modal_state \<Rightarrow> bool" where
  "suspiciousSmallEdit apiKey s =
     js_and (isFinite (distanceFromCurrent apiKey s))
            (distanceFromCurrent apiKey s \<le> enat SMALL_CHANGE_THRESHOLD)"

definition diff :: "js_string option \<Rightarrow> modal_state \<Rightarrow> code_unit diff_report option" where
  "diff apiKey s =
     (case apiKey of
        None \<Rightarrow> None
      | Some k \<Rightarrow> if js_or (k = []) (newKey s = []) then None
                  else firstDiff k (newKey s))"

text \<open>The expression of \<^verbatim>\<open>canSave\<close>, as a function of the four values it reads.\<close>

definition canSave :: "bool \<Rightarrow> bool \<Rightarrow> bool \<Rightarrow> bool \<Rightarrow> bool" where
  "canSave matches_v ackReplace_v suspiciousSmallEdit_v forceSmallChange_v =
     js_and (js_and matches_v ackReplace_v)
            (js_or (\<not> suspiciousSmallEdit_v) forceSmallChange_v)"

text \<open>\<^verbatim>\<open>canSave\<close> as the component computes it on a render.\<close>

definition canSave_now :: "js_string option \<Rightarrow> modal_state \<Rightarrow> bool" where
  "canSave_now apiKey s =
     canSave (matches s) (ackReplace s) (suspiciousSmallEdit apiKey s) (forceSmallChange s)"

text \<open>The state of the first render: the initial values of the \<^verbatim>\<open>useState\<close> cells.\<close>

definition initial_state :: modal_state where
  "initial_state =
     \<lparr>is_open = False, newKey = [], confirmKey = [], ackReplace = False,
      forceSmallChange = False\<rparr>"

definition onOpenChange :: "bool \<Rightarrow> modal_state \<Rightarrow> modal_state" where
  "onOpenChange next s =
     (let s1 = s\<lparr>is_open := next\<rparr>
      in if next then
           s1\<lparr>newKey := [], confirmKey := [], ackReplace := False, forceSmallChange := False\<rparr>
         else s1)"

text \<open>
  A handler returns the calls it makes to the store's setter \<^verbatim>\<open>setApiKey\<close>, in order,
  and the next state of the dialog.
\<close>

definition handleSave :: "js_string option \<Rightarrow> modal_state \<Rightarrow> js_string list \<times> modal_state" where
  "handleSave apiKey s =
     (if \<not> canSave_now apiKey s then ([], s)
      else ([newKey s], s\<lparr>is_open := False\<rparr>))"

text \<open>
  Every event the dialog reacts to: the two inputs, the two switches, the dialog's own
  \<^verbatim>\<open>onOpenChange\<close> (trigger, escape, click outside), the Cancel button and the Save
  button.
\<close>

datatype event =
    SetNewKey js_string
  | SetConfirmKey js_string
  | SetAckReplace bool
  | SetForceSmallChange bool
  | OpenChange bool
  | Cancel
  | Save

fun step :: "js_string option \<Rightarrow> event \<Rightarrow> modal_state \<Rightarrow> js_string list \<times> modal_state" where
  "step apiKey (SetNewKey v) s = ([], s\<lparr>newKey := v\<rparr>)"
| "step apiKey (SetConfirmKey v) s = ([], s\<lparr>confirmKey := v\<rparr>)"
| "step apiKey (SetAckReplace v) s = ([], s\<lparr>ackReplace := v\<rparr>)"
| "step apiKey (SetForceSmallChange v) s = ([], s\<lparr>forceSmallChange := v\<rparr>)"
| "step apiKey (OpenChange next) s = ([], onOpenChange next s)"
| "step apiKey Cancel s = ([], s\<lparr>is_open := False\<rparr>)"
| "step apiKey Save s = handleSave apiKey s"

subsection \<open>The edit distance of the specification\<close>

text \<open>
  One edit turns a string into another by inserting, deleting or substituting a single
  unit, at any position.
\<close>

inductive edit1 :: "'a list \<Rightarrow> 'a list \<Rightarrow> bool" where
  insertion: "edit1 (u @ v) (u @ c # v)"
| deletion: "edit1 (u @ c # v) (u @ v)"
| substitution: "c \<noteq> d \<Longrightarrow> edit1 (u @ c # v) (u @ d # v)"

text \<open>
  The recurrence of the specification over the prefixes of \<open>a\<close> and \<open>b\<close>: row 0 and
  column 0 are the index sequences, and \<open>spec_dp a b i j\<close> is its \<open>dp[i][j]\<close>.
\<close>

fun spec_dp :: "'a list \<Rightarrow> 'a list \<Rightarrow> nat \<Rightarrow> nat \<Rightarrow> nat" where
  "spec_dp a b 0 j = j"
| "spec_dp a b (Suc i) 0 = Suc i"
| "spec_dp a b (Suc i) (Suc j) =
     min (min (spec_dp a b i (Suc j) + 1) (spec_dp a b (Suc i) j + 1))
         (spec_dp a b i j + (if a ! i = b ! j then 0 else 1))"

text \<open>The same recurrence read from the front of the two strings.\<close>

fun ed :: "'a list \<Rightarrow> 'a list \<Rightarrow> nat" where
  "ed [] ys = length ys"
| "ed (x # xs) [] = Suc (length xs)"
| "ed (x # xs) (y # ys) =
     min (min (ed xs (y # ys) + 1) (ed (x # xs) ys + 1))
         (ed xs ys + (if x = y then 0 else 1))"

text \<open>
  A table of \<open>m + 1\<close> rows of \<open>n + 1\<close> cells, and a table whose cells hold the
  recurrence in row 0, in column 0, in every row above \<open>i\<close> and in row \<open>i\<close> left of
  column \<open>j\<close>: the invariant of the two nested loops.
\<close>

definition dims :: "nat \<Rightarrow> nat \<Rightarrow> table \<Rightarrow> bool" where
  "dims m n dp = (length dp = Suc m \<and> (\<forall>i \<le> m. length (dp ! i) = Suc n))"

definition filled :: "'a list \<Rightarrow> 'a list \<Rightarrow> table \<Rightarrow> nat \<Rightarrow> nat \<Rightarrow> bool" where
  "filled a b dp i j =
     (dims (length a) (length b) dp
      \<and> (\<forall>i' j'. i' \<le> length a \<and> j' \<le> length b
             \<and> (i' = 0 \<or> j' = 0 \<or> i' < i \<or> (i' = i \<and> j' < j))
           \<longrightarrow> dp ! i' ! j' = spec_dp a b i' j'))"

section \<open>The gate\<close>

text \<open>
  C1. For all boolean inputs, \<open>canSave\<close> is \<open>matches \<and> acknowledged \<and>
  (\<not> smallEditDetected \<or> smallEditOverridden)\<close>: it is false whenever \<open>matches\<close> or
  \<open>acknowledged\<close> is false, false when a small edit is detected without the override,
  and true when both hold and either no small edit is detected or the override is set.
\<close>

theorem canSave_formula:
  "canSave m a se ov = (m \<and> a \<and> (\<not> se \<or> ov))
   \<and> (\<not> m \<or> \<not> a \<longrightarrow> \<not> canSave m a se ov)
   \<and> (se \<and> \<not> ov \<longrightarrow> \<not> canSave m a se ov)
   \<and> (m \<and> a \<and> (\<not> se \<or> ov) \<longrightarrow> canSave m a se ov)"
  by (cases m; cases a; cases se; cases ov) (simp_all add: canSave_def js_and_def js_or_def)

theorem canSave_formula_witness:
  "\<not> canSave False True False False \<and> \<not> canSave True False False False
   \<and> \<not> canSave True True True False \<and> canSave True True True True
   \<and> canSave True True False False"
  using canSave_formula [of False True False False]
        canSave_formula [of True False False False]
        canSave_formula [of True True True False]
        canSave_formula [of True True True True]
        canSave_formula [of True True False False]
  by simp

text \<open>
  C6. \<open>matches\<close> is true exactly when the candidate and the confirmation are both
  non-empty and equal unit for unit; an empty candidate against an empty confirmation is
  not a match.
\<close>

theorem matches_iff:
  "matches s = (newKey s \<noteq> [] \<and> confirmKey s \<noteq> [] \<and> newKey s = confirmKey s)
   \<and> (newKey s = [] \<and> confirmKey s = [] \<longrightarrow> \<not> matches s)"
  by (auto simp add: matches_def bothEntered_def js_and_def)

theorem matches_iff_witness:
  "\<not> matches \<lparr>is_open = True, newKey = [], confirmKey = [], ackReplace = True,
               forceSmallChange = False\<rparr>
   \<and> matches \<lparr>is_open = True, newKey = str ''sk-A'', confirmKey = str ''sk-A'',
               ackReplace = False, forceSmallChange = False\<rparr>
   \<and> \<not> matches \<lparr>is_open = True, newKey = str ''sk-A'', confirmKey = str ''sk-B'',
               ackReplace = False, forceSmallChange = False\<rparr>"
  using matches_iff [of "\<lparr>is_open = True, newKey = [], confirmKey = [], ackReplace = True,
                          forceSmallChange = False\<rparr>"]
        matches_iff [of "\<lparr>is_open = True, newKey = str ''sk-A'', confirmKey = str ''sk-A'',
                          ackReplace = False, forceSmallChange = False\<rparr>"]
        matches_iff [of "\<lparr>is_open = True, newKey = str ''sk-A'', confirmKey = str ''sk-B'',
                          ackReplace = False, forceSmallChange = False\<rparr>"]
  by (simp add: str_def)

section \<open>The workflow\<close>

text \<open>
  C3, as the code has it. Closing the dialog, by dismissal, by the Cancel button or by a
  successful save, only clears \<open>open\<close>: the candidate, the confirmation, the
  acknowledgement and the override stay as they were. Opening the dialog resets all four,
  from whatever state, so a reopened dialog starts clean however it was closed.
\<close>

theorem close_keeps_open_resets:
  "onOpenChange False s = s\<lparr>is_open := False\<rparr>
   \<and> snd (step apiKey Cancel s) = s\<lparr>is_open := False\<rparr>
   \<and> (canSave_now apiKey s \<longrightarrow> snd (handleSave apiKey s) = s\<lparr>is_open := False\<rparr>)
   \<and> onOpenChange True s = initial_state\<lparr>is_open := True\<rparr>"
  by (simp add: onOpenChange_def handleSave_def initial_state_def)

theorem close_keeps_open_resets_witness:
  "canSave_now None \<lparr>is_open = True, newKey = str ''sk-B'', confirmKey = str ''sk-B'',
                     ackReplace = True, forceSmallChange = False\<rparr>
   \<and> snd (handleSave None \<lparr>is_open = True, newKey = str ''sk-B'', confirmKey = str ''sk-B'',
                            ackReplace = True, forceSmallChange = False\<rparr>)
       = \<lparr>is_open = False, newKey = str ''sk-B'', confirmKey = str ''sk-B'',
          ackReplace = True, forceSmallChange = False\<rparr>"
proof -
  let ?s = "\<lparr>is_open = True, newKey = str ''sk-B'', confirmKey = str ''sk-B'',
             ackReplace = True, forceSmallChange = False\<rparr>"
  have ok: "canSave_now None ?s"
    by (simp add: canSave_now_def canSave_def matches_def bothEntered_def
        suspiciousSmallEdit_def distanceFromCurrent_def isFinite_def js_and_def js_or_def
        str_def)
  with close_keeps_open_resets [of ?s None] show ?thesis
    by simp
qed

text \<open>
  The claim C3 as stated fails: after the dialog is dismissed, and after a successful
  save, the candidate is still what the user typed.
\<close>

theorem close_discards_counterexample:
  "newKey (onOpenChange False \<lparr>is_open = True, newKey = str ''sk-B'', confirmKey = str ''sk-B'',
                               ackReplace = True, forceSmallChange = False\<rparr>) \<noteq> []
   \<and> ackReplace (onOpenChange False \<lparr>is_open = True, newKey = str ''sk-B'',
                               confirmKey = str ''sk-B'', ackReplace = True,
                               forceSmallChange = False\<rparr>)
   \<and> fst (handleSave None \<lparr>is_open = True, newKey = str ''sk-B'', confirmKey = str ''sk-B'',
                               ackReplace = True, forceSmallChange = False\<rparr>) = [str ''sk-B'']
   \<and> newKey (snd (handleSave None \<lparr>is_open = True, newKey = str ''sk-B'',
                               confirmKey = str ''sk-B'', ackReplace = True,
                               forceSmallChange = False\<rparr>)) \<noteq> []"
  by (simp add: onOpenChange_def handleSave_def canSave_now_def canSave_def matches_def
      bothEntered_def suspiciousSmallEdit_def distanceFromCurrent_def isFinite_def
      js_and_def js_or_def str_def)

text \<open>
  C8. The setter of the store is never called while \<open>canSave\<close> is false: a save attempt
  then changes nothing and calls nothing. A successful save calls the setter exactly once,
  with the candidate. No other event calls the setter, so a key is only ever stored when
  the keys match and the replacement is acknowledged.
\<close>

theorem setter_only_when_canSave:
  "(\<not> canSave_now apiKey s \<longrightarrow> handleSave apiKey s = ([], s))
   \<and> (canSave_now apiKey s \<longrightarrow> fst (handleSave apiKey s) = [newKey s])
   \<and> (fst (step apiKey ev s) \<noteq> [] \<longrightarrow>
        ev = Save \<and> canSave_now apiKey s \<and> matches s \<and> ackReplace s
        \<and> fst (step apiKey ev s) = [newKey s])"
  by (cases ev)
     (auto simp add: handleSave_def canSave_now_def canSave_def js_and_def js_or_def
       split: if_splits)

theorem setter_only_when_canSave_witness:
  "\<not> canSave_now None \<lparr>is_open = True, newKey = str ''sk-B'', confirmKey = str ''sk-C'',
                       ackReplace = True, forceSmallChange = True\<rparr>
   \<and> handleSave None \<lparr>is_open = True, newKey = str ''sk-B'', confirmKey = str ''sk-C'',
                       ackReplace = True, forceSmallChange = True\<rparr>
       = ([], \<lparr>is_open = True, newKey = str ''sk-B'', confirmKey = str ''sk-C'',
                ackReplace = True, forceSmallChange = True\<rparr>)
   \<and> canSave_now None \<lparr>is_open = True, newKey = str ''sk-B'', confirmKey = str ''sk-B'',
                       ackReplace = True, forceSmallChange = False\<rparr>
   \<and> fst (step None Save \<lparr>is_open = True, newKey = str ''sk-B'', confirmKey = str ''sk-B'',
                       ackReplace = True, forceSmallChange = False\<rparr>) = [str ''sk-B'']"
proof -
  let ?bad = "\<lparr>is_open = True, newKey = str ''sk-B'', confirmKey = str ''sk-C'',
               ackReplace = True, forceSmallChange = True\<rparr>"
  let ?good = "\<lparr>is_open = True, newKey = str ''sk-B'', confirmKey = str ''sk-B'',
                ackReplace = True, forceSmallChange = False\<rparr>"
  have bad: "\<not> canSave_now None ?bad"
    by (simp add: canSave_now_def canSave_def matches_def bothEntered_def js_and_def str_def)
  have good: "canSave_now None ?good"
    by (simp add: canSave_now_def canSave_def matches_def bothEntered_def
        suspiciousSmallEdit_def distanceFromCurrent_def isFinite_def js_and_def js_or_def
        str_def)
  from setter_only_when_canSave [of None ?bad Save] bad
  have unchanged: "handleSave None ?bad = ([], ?bad)"
    by blast
  from setter_only_when_canSave [of None ?good Save] good
  have "fst (handleSave None ?good) = [newKey ?good]"
    by blast
  then have once: "fst (step None Save ?good) = [str ''sk-B'']"
    by simp
  from bad unchanged good once show ?thesis
    by blast
qed

section \<open>maskKey\<close>






text \<open>
  C10. For a non-empty key and a suffix of zero or less, \<open>maskKey\<close> returns the marker
  followed by the entire key.
\<close>

theorem maskKey_nonpositive_suffix:
  "k \<noteq> [] \<Longrightarrow> suffix \<le> 0 \<Longrightarrow> maskKey (Some k) suffix = prefix_marker @ k"
  by (simp add: maskKey_def js_slice_from_def)

theorem maskKey_nonpositive_suffix_witness:
  "str ''sk-12'' \<noteq> [] \<and> (-1::int) \<le> 0
   \<and> maskKey (Some (str ''sk-12'')) (-1) = prefix_marker @ str ''sk-12''"
proof -
  have ne: "str ''sk-12'' \<noteq> []"
    by (simp add: str_def)
  have le: "(-1::int) \<le> 0"
    by simp
  from maskKey_nonpositive_suffix [OF ne le] ne le show ?thesis
    by simp
qed

section \<open>firstDiff\<close>

lemma js_at_agree_iff:
  "(\<forall>j < max (length a) (length b). js_at a j = js_at b j) \<longleftrightarrow> a = b"
proof
  assume agree: "\<forall>j < max (length a) (length b). js_at a j = js_at b j"
  have len: "length a = length b"
  proof (rule ccontr)
    assume "length a \<noteq> length b"
    then consider "length a < length b" | "length b < length a"
      by linarith
    then show False
    proof cases
      case 1
      with agree have "js_at a (length a) = js_at b (length a)"
        by simp
      with 1 show False
        by (simp add: js_at_def)
    next
      case 2
      with agree have "js_at a (length b) = js_at b (length b)"
        by simp
      with 2 show False
        by (simp add: js_at_def)
    qed
  qed
  show "a = b"
  proof (rule nth_equalityI)
    show "length a = length b"
      by (rule len)
  next
    fix j assume "j < length a"
    with agree len show "a ! j = b ! j"
      by (auto simp add: js_at_def split: if_splits)
  qed
next
  assume "a = b"
  then show "\<forall>j < max (length a) (length b). js_at a j = js_at b j"
    by simp
qed

lemma firstDiff_loop_None:
  "firstDiff_loop a b mx i = None \<Longrightarrow> i \<le> j \<Longrightarrow> j < mx \<Longrightarrow> js_at a j = js_at b j"
proof (induction a b mx i rule: firstDiff_loop.induct)
  case (1 a b mx i)
  from "1.prems" have lt: "i < mx"
    by simp
  with "1.prems"(1) have here: "js_at a i = js_at b i"
    by (simp split: if_splits)
  with lt "1.prems"(1) have rest: "firstDiff_loop a b mx (i + 1) = None"
    by simp
  show ?case
  proof (cases "j = i")
    case True
    with here show ?thesis
      by simp
  next
    case False
    with "1.prems" have "i + 1 \<le> j"
      by simp
    with "1.IH" [OF lt _ rest] here "1.prems"(3) show ?thesis
      by simp
  qed
qed

lemma firstDiff_loop_agree:
  "(\<forall>j. i \<le> j \<and> j < mx \<longrightarrow> js_at a j = js_at b j) \<Longrightarrow> firstDiff_loop a b mx i = None"
proof (induction a b mx i rule: firstDiff_loop.induct)
  case (1 a b mx i)
  show ?case
  proof (cases "i < mx")
    case True
    with "1.prems" have here: "js_at a i = js_at b i"
      by simp
    from "1.prems" have "\<forall>j. i + 1 \<le> j \<and> j < mx \<longrightarrow> js_at a j = js_at b j"
      by simp
    with "1.IH" [OF True] here have "firstDiff_loop a b mx (i + 1) = None"
      by simp
    with True here show ?thesis
      by simp
  next
    case False
    then show ?thesis
      by simp
  qed
qed

lemma firstDiff_loop_Some:
  "firstDiff_loop a b mx i = Some r \<Longrightarrow>
     i \<le> index r \<and> index r < mx \<and> js_at a (index r) \<noteq> js_at b (index r)
     \<and> (\<forall>j. i \<le> j \<and> j < index r \<longrightarrow> js_at a j = js_at b j)
     \<and> left r = js_slice a (nat (max 0 (int (index r) - 3))) (min mx (index r + 4))
     \<and> right r = js_slice b (nat (max 0 (int (index r) - 3))) (min mx (index r + 4))"
proof (induction a b mx i arbitrary: r rule: firstDiff_loop.induct)
  case (1 a b mx i)
  from "1.prems" have lt: "i < mx"
    by (simp split: if_splits)
  show ?case
  proof (cases "js_at a i = js_at b i")
    case True
    with lt "1.prems" have "firstDiff_loop a b mx (i + 1) = Some r"
      by simp
    from "1.IH" [OF lt _ this] True
    have ih: "i + 1 \<le> index r" "index r < mx" "js_at a (index r) \<noteq> js_at b (index r)"
      "\<forall>j. i + 1 \<le> j \<and> j < index r \<longrightarrow> js_at a j = js_at b j"
      "left r = js_slice a (nat (max 0 (int (index r) - 3))) (min mx (index r + 4))"
      "right r = js_slice b (nat (max 0 (int (index r) - 3))) (min mx (index r + 4))"
      by simp_all
    have "js_at a j = js_at b j" if "i \<le> j" "j < index r" for j
    proof (cases "j = i")
      case True
      with \<open>js_at a i = js_at b i\<close> show ?thesis
        by simp
    next
      case False
      with that ih(4) show ?thesis
        by simp
    qed
    with ih show ?thesis
      by simp
  next
    case False
    with lt "1.prems"
    have "r = \<lparr>index = i,
               left = js_slice a (nat (max 0 (int i - 3))) (min mx (i + 4)),
               right = js_slice b (nat (max 0 (int i - 3))) (min mx (i + 4))\<rparr>"
      by simp
    with lt False show ?thesis
      by auto
  qed
qed

lemma js_at_append_left: "j < length a \<Longrightarrow> js_at (a @ t) j = js_at a j"
  by (simp add: js_at_def nth_append)

lemma js_at_append_end: "js_at (a @ c # cs) (length a) = Some c" "js_at a (length a) = None"
  by (simp_all add: js_at_def)

lemma prefix_differs_at_end:
  assumes "(\<exists>c cs. b = a @ c # cs) \<or> (\<exists>c cs. a = b @ c # cs)"
  shows "js_at a (min (length a) (length b)) \<noteq> js_at b (min (length a) (length b))"
proof -
  from assms consider (ab) c cs where "b = a @ c # cs" | (ba) c cs where "a = b @ c # cs"
    by blast
  then show ?thesis
  proof cases
    case ab
    then have "min (length a) (length b) = length a"
      by simp
    with ab show ?thesis
      by (simp add: js_at_append_end)
  next
    case ba
    then have "min (length a) (length b) = length b"
      by simp
    with ba show ?thesis
      by (simp add: js_at_append_end)
  qed
qed

lemma prefix_agrees_below:
  assumes "(\<exists>c cs. b = a @ c # cs) \<or> (\<exists>c cs. a = b @ c # cs)"
    and "j < min (length a) (length b)"
  shows "js_at a j = js_at b j"
proof -
  from assms(1) consider (ab) c cs where "b = a @ c # cs" | (ba) c cs where "a = b @ c # cs"
    by blast
  then show ?thesis
  proof cases
    case ab
    with assms(2) show ?thesis
      by (simp add: js_at_append_left)
  next
    case ba
    with assms(2) show ?thesis
      by (simp add: js_at_append_left)
  qed
qed

text \<open>
  C4. \<open>firstDiff a b\<close> is none exactly when \<open>a = b\<close>. Otherwise its index is the
  smallest \<open>i\<close> below \<open>max (length a) (length b)\<close> at which \<open>a[i]\<close> and \<open>b[i]\<close>
  differ, a position out of range counting as different from every unit; the two
  contexts are the slices of \<open>a\<close> and of \<open>b\<close> over the one range from \<open>max 0 (i - 3)\<close>
  to \<open>min (max (length a) (length b)) (i + 4)\<close>. When one string is a strict prefix of
  the other, the index is the length of the shorter one. For \<^verbatim>\<open>abcXdef\<close> and
  \<^verbatim>\<open>abcYdef\<close> the index is 3 and both contexts cover the positions 0 to 6.
\<close>

theorem firstDiff_first_divergence:
  "(firstDiff a b = None \<longleftrightarrow> a = b)
   \<and> (firstDiff a b = Some r \<longrightarrow>
        index r < max (length a) (length b)
        \<and> js_at a (index r) \<noteq> js_at b (index r)
        \<and> (\<forall>j < index r. js_at a j = js_at b j)
        \<and> left r = js_slice a (nat (max 0 (int (index r) - 3)))
                              (min (max (length a) (length b)) (index r + 4))
        \<and> right r = js_slice b (nat (max 0 (int (index r) - 3)))
                               (min (max (length a) (length b)) (index r + 4)))
   \<and> ((\<exists>c cs. b = a @ c # cs) \<or> (\<exists>c cs. a = b @ c # cs) \<longrightarrow>
        (\<exists>r'. firstDiff a b = Some r' \<and> index r' = min (length a) (length b)))
   \<and> firstDiff (str ''abcXdef'') (str ''abcYdef'')
        = Some \<lparr>index = 3, left = js_slice (str ''abcXdef'') 0 7,
                 right = js_slice (str ''abcYdef'') 0 7\<rparr>"
proof (intro conjI impI)
  show none: "firstDiff a b = None \<longleftrightarrow> a = b"
  proof
    assume "firstDiff a b = None"
    then have "\<forall>j < max (length a) (length b). js_at a j = js_at b j"
      unfolding firstDiff_def using firstDiff_loop_None [of a b _ 0] by blast
    then show "a = b"
      by (simp only: js_at_agree_iff)
  next
    assume "a = b"
    then show "firstDiff a b = None"
      unfolding firstDiff_def by (intro firstDiff_loop_agree) simp
  qed
  {
    assume "firstDiff a b = Some r"
    then have "firstDiff_loop a b (max (length a) (length b)) 0 = Some r"
      by (simp add: firstDiff_def)
    from firstDiff_loop_Some [OF this]
    show "index r < max (length a) (length b)"
      and "js_at a (index r) \<noteq> js_at b (index r)"
      and "\<forall>j < index r. js_at a j = js_at b j"
      and "left r = js_slice a (nat (max 0 (int (index r) - 3)))
                              (min (max (length a) (length b)) (index r + 4))"
      and "right r = js_slice b (nat (max 0 (int (index r) - 3)))
                               (min (max (length a) (length b)) (index r + 4))"
      by simp_all
  }
  {
    assume pre: "(\<exists>c cs. b = a @ c # cs) \<or> (\<exists>c cs. a = b @ c # cs)"
    then have "a \<noteq> b"
      by auto
    with none obtain r' where r': "firstDiff a b = Some r'"
      by auto
    then have "firstDiff_loop a b (max (length a) (length b)) 0 = Some r'"
      by (simp add: firstDiff_def)
    from firstDiff_loop_Some [OF this]
    have differ: "js_at a (index r') \<noteq> js_at b (index r')"
      and agree: "\<forall>j < index r'. js_at a j = js_at b j"
      by simp_all
    let ?k = "min (length a) (length b)"
    have at_k: "js_at a ?k \<noteq> js_at b ?k"
      using pre by (rule prefix_differs_at_end)
    have below: "js_at a j = js_at b j" if "j < ?k" for j
      using pre that by (rule prefix_agrees_below)
    have "index r' = ?k"
    proof (rule ccontr)
      assume "index r' \<noteq> ?k"
      then consider "index r' < ?k" | "?k < index r'"
        by linarith
      then show False
      proof cases
        case 1
        with below differ show False
          by blast
      next
        case 2
        with agree at_k show False
          by blast
      qed
    qed
    with r' show "\<exists>r'. firstDiff a b = Some r' \<and> index r' = min (length a) (length b)"
      by blast
  }
  show "firstDiff (str ''abcXdef'') (str ''abcYdef'')
        = Some \<lparr>index = 3, left = js_slice (str ''abcXdef'') 0 7,
                 right = js_slice (str ''abcYdef'') 0 7\<rparr>"
    by code_simp
qed

theorem firstDiff_first_divergence_witness:
  "(\<exists>c cs. str ''abcd'' = str ''abc'' @ c # cs)
   \<and> (\<exists>r'. firstDiff (str ''abc'') (str ''abcd'') = Some r' \<and> index r' = 3)
   \<and> firstDiff (str ''abc'') (str ''abcd'')
       = Some \<lparr>index = 3, left = str ''abc'', right = str ''abcd''\<rparr>
   \<and> firstDiff (str ''abcd'') (str ''abcd'') = None"
proof -
  have pre: "\<exists>c cs. str ''abcd'' = str ''abc'' @ c # cs"
    by (simp add: str_def)
  have val: "firstDiff (str ''abc'') (str ''abcd'')
       = Some \<lparr>index = 3, left = str ''abc'', right = str ''abcd''\<rparr>"
    by code_simp
  from firstDiff_first_divergence [of "str ''abc''" "str ''abcd''"] pre
  have idx: "\<exists>r'. firstDiff (str ''abc'') (str ''abcd'') = Some r'
                \<and> index r' = min (length (str ''abc'')) (length (str ''abcd''))"
    by blast
  have "min (length (str ''abc'')) (length (str ''abcd'')) = 3"
    by (simp add: str_def)
  with idx have idx3: "\<exists>r'. firstDiff (str ''abc'') (str ''abcd'') = Some r' \<and> index r' = 3"
    by simp
  from firstDiff_first_divergence [of "str ''abcd''" "str ''abcd''"]
  have same: "firstDiff (str ''abcd'') (str ''abcd'') = None"
    by blast
  from pre idx3 val same show ?thesis
    by blast
qed

section \<open>Small edits\<close>

text \<open>
  C7. When the stored key is absent or empty, or the candidate is empty, the distance is
  \<open>\<infinity>\<close>, no small edit is detected and there is no divergence report. When both
  are non-empty, a small edit is detected exactly when the edit distance between the
  stored key and the candidate is at most 2.
\<close>

theorem small_edit_guard:
  "(absent apiKey \<or> newKey s = [] \<longrightarrow>
      distanceFromCurrent apiKey s = \<infinity> \<and> \<not> suspiciousSmallEdit apiKey s
      \<and> diff apiKey s = None)
   \<and> (apiKey = Some k \<and> k \<noteq> [] \<and> newKey s \<noteq> [] \<longrightarrow>
        distanceFromCurrent apiKey s = enat (levenshtein k (newKey s))
        \<and> diff apiKey s = firstDiff k (newKey s)
        \<and> (suspiciousSmallEdit apiKey s \<longleftrightarrow> levenshtein k (newKey s) \<le> 2))"
  by (auto simp add: absent_def distanceFromCurrent_def suspiciousSmallEdit_def diff_def
      isFinite_def js_and_def js_or_def SMALL_CHANGE_THRESHOLD_def
      split: option.splits)

theorem small_edit_guard_witness:
  "absent None
   \<and> \<not> suspiciousSmallEdit None \<lparr>is_open = True, newKey = str ''sk-AAAA1112'',
          confirmKey = str ''sk-AAAA1112'', ackReplace = True, forceSmallChange = False\<rparr>
   \<and> diff None \<lparr>is_open = True, newKey = str ''sk-AAAA1112'',
          confirmKey = str ''sk-AAAA1112'', ackReplace = True, forceSmallChange = False\<rparr> = None
   \<and> suspiciousSmallEdit (Some (str ''sk-AAAA1111'')) \<lparr>is_open = True,
          newKey = str ''sk-AAAA1112'', confirmKey = str ''sk-AAAA1112'', ackReplace = True,
          forceSmallChange = False\<rparr>
   \<and> \<not> suspiciousSmallEdit (Some (str ''sk-ZZZZ9999'')) \<lparr>is_open = True,
          newKey = str ''sk-AAAA1112'', confirmKey = str ''sk-AAAA1112'', ackReplace = True,
          forceSmallChange = False\<rparr>"
proof -
  let ?s = "\<lparr>is_open = True, newKey = str ''sk-AAAA1112'', confirmKey = str ''sk-AAAA1112'',
             ackReplace = True, forceSmallChange = False\<rparr>"
  have none: "absent None"
    by (simp add: absent_def)
  have new: "newKey ?s = str ''sk-AAAA1112''" "str ''sk-AAAA1112'' \<noteq> []"
    "str ''sk-AAAA1111'' \<noteq> []" "str ''sk-ZZZZ9999'' \<noteq> []"
    by (simp_all add: str_def)
  have near: "levenshtein (str ''sk-AAAA1111'') (str ''sk-AAAA1112'') = 1"
    by code_simp
  have far: "levenshtein (str ''sk-ZZZZ9999'') (str ''sk-AAAA1112'') = 8"
    by code_simp
  from small_edit_guard [of None ?s] none
  have a: "\<not> suspiciousSmallEdit None ?s" "diff None ?s = None"
    by blast+
  from small_edit_guard [of "Some (str ''sk-AAAA1111'')" ?s "str ''sk-AAAA1111''"] new
  have "suspiciousSmallEdit (Some (str ''sk-AAAA1111'')) ?s
          \<longleftrightarrow> levenshtein (str ''sk-AAAA1111'') (str ''sk-AAAA1112'') \<le> 2"
    by simp
  with near have b: "suspiciousSmallEdit (Some (str ''sk-AAAA1111'')) ?s"
    by simp
  from small_edit_guard [of "Some (str ''sk-ZZZZ9999'')" ?s "str ''sk-ZZZZ9999''"] new
  have "suspiciousSmallEdit (Some (str ''sk-ZZZZ9999'')) ?s
          \<longleftrightarrow> levenshtein (str ''sk-ZZZZ9999'') (str ''sk-AAAA1112'') \<le> 2"
    by simp
  with far have c: "\<not> suspiciousSmallEdit (Some (str ''sk-ZZZZ9999'')) ?s"
    by simp
  from none a b c show ?thesis
    by blast
qed

section \<open>The table of levenshtein\<close>

lemma set_cell_dims: "dims m n dp \<Longrightarrow> i \<le> m \<Longrightarrow> dims m n (set_cell dp i j v)"
  by (simp add: dims_def set_cell_def nth_list_update)

lemma set_cell_nth:
  assumes "dims m n dp" "i \<le> m" "j \<le> n" "i' \<le> m"
  shows "set_cell dp i j v ! i' ! j' = (if i' = i \<and> j' = j then v else dp ! i' ! j')"
proof -
  from assms have "i < length dp" "j < length (dp ! i)" "i' < length dp"
    by (simp_all add: dims_def)
  then show ?thesis
    by (simp add: set_cell_def nth_list_update)
qed

lemma init_column_spec:
  "dims m n dp \<Longrightarrow>
     dims m n (init_column m i dp)
     \<and> (\<forall>i' j'. i' \<le> m \<longrightarrow>
           init_column m i dp ! i' ! j' = (if j' = 0 \<and> i \<le> i' then i' else dp ! i' ! j'))"
proof (induction m i dp rule: init_column.induct)
  case (1 m i dp)
  show ?case
  proof (cases "i \<le> m")
    case True
    let ?dp = "set_cell dp i 0 i"
    from "1.prems" True have d: "dims m n ?dp"
      by (simp add: set_cell_dims)
    from "1.IH" [OF True d]
    have ih: "dims m n (init_column m (i + 1) ?dp)"
      "\<And>i' j'. i' \<le> m \<Longrightarrow>
          init_column m (i + 1) ?dp ! i' ! j' = (if j' = 0 \<and> i + 1 \<le> i' then i' else ?dp ! i' ! j')"
      by simp_all
    have unfold: "init_column m i dp = init_column m (i + 1) ?dp"
      using True by (subst init_column.simps) simp
    have "init_column m (i + 1) ?dp ! i' ! j' = (if j' = 0 \<and> i \<le> i' then i' else dp ! i' ! j')"
      if "i' \<le> m" for i' j'
      using that ih(2) [OF that, of j'] set_cell_nth [OF "1.prems" True _ that, of 0 i j']
      by auto
    with ih(1) unfold show ?thesis
      by simp
  next
    case False
    have "init_column m i dp = dp"
      using False by (subst init_column.simps) simp
    with "1.prems" False show ?thesis
      by auto
  qed
qed

lemma init_row_spec:
  "dims m n dp \<Longrightarrow>
     dims m n (init_row n j dp)
     \<and> (\<forall>i' j'. i' \<le> m \<and> j' \<le> n \<longrightarrow>
           init_row n j dp ! i' ! j' = (if i' = 0 \<and> j \<le> j' then j' else dp ! i' ! j'))"
proof (induction n j dp rule: init_row.induct)
  case (1 n j dp)
  show ?case
  proof (cases "j \<le> n")
    case True
    let ?dp = "set_cell dp 0 j j"
    from "1.prems" have d: "dims m n ?dp"
      by (simp add: set_cell_dims)
    from "1.IH" [OF True d]
    have ih: "dims m n (init_row n (j + 1) ?dp)"
      "\<And>i' j'. i' \<le> m \<Longrightarrow> j' \<le> n \<Longrightarrow>
          init_row n (j + 1) ?dp ! i' ! j' = (if i' = 0 \<and> j + 1 \<le> j' then j' else ?dp ! i' ! j')"
      by simp_all
    have unfold: "init_row n j dp = init_row n (j + 1) ?dp"
      using True by (subst init_row.simps) simp
    have "init_row n (j + 1) ?dp ! i' ! j' = (if i' = 0 \<and> j \<le> j' then j' else dp ! i' ! j')"
      if "i' \<le> m" "j' \<le> n" for i' j'
      using that ih(2) [OF that] set_cell_nth [OF "1.prems" _ True that(1), of 0 j j']
      by auto
    with ih(1) unfold show ?thesis
      by simp
  next
    case False
    have "init_row n j dp = dp"
      using False by (subst init_row.simps) simp
    with "1.prems" False show ?thesis
      by auto
  qed
qed


lemma spec_dp_column: "spec_dp a b i 0 = i"
  by (cases i) simp_all

lemma cell_value_spec_dp:
  assumes f: "filled a b dp i j" and i: "0 < i" "i \<le> length a" and j: "0 < j" "j \<le> length b"
  shows "cell_value a b dp i j = spec_dp a b i j"
proof -
  from i j obtain i0 j0 where ij: "i = Suc i0" "j = Suc j0"
    by (cases i; cases j) auto
  from f i j ij have up: "dp ! i0 ! j = spec_dp a b i0 j"
    and lf: "dp ! i ! j0 = spec_dp a b i j0"
    and dg: "dp ! i0 ! j0 = spec_dp a b i0 j0"
    by (simp_all add: filled_def)
  from i j ij have "js_at a i0 = js_at b j0 \<longleftrightarrow> a ! i0 = b ! j0"
    by (simp add: js_at_def)
  with up lf dg ij show ?thesis
    by (simp add: cell_value_def)
qed

lemma filled_step:
  assumes f: "filled a b dp i j" and i: "0 < i" "i \<le> length a" and j: "0 < j" "j \<le> length b"
  shows "filled a b (set_cell dp i j (cell_value a b dp i j)) i (j + 1)"
proof -
  let ?v = "cell_value a b dp i j"
  from f have d: "dims (length a) (length b) dp"
    by (simp add: filled_def)
  have v: "?v = spec_dp a b i j"
    using f i j by (rule cell_value_spec_dp)
  have "set_cell dp i j ?v ! i' ! j' = spec_dp a b i' j'"
    if "i' \<le> length a" "j' \<le> length b" "i' = 0 \<or> j' = 0 \<or> i' < i \<or> (i' = i \<and> j' < j + 1)"
    for i' j'
  proof (cases "i' = i \<and> j' = j")
    case True
    with set_cell_nth [OF d i(2) j(2) that(1), of ?v j'] v show ?thesis
      by simp
  next
    case False
    with that have "i' = 0 \<or> j' = 0 \<or> i' < i \<or> (i' = i \<and> j' < j)"
      by auto
    with f that have "dp ! i' ! j' = spec_dp a b i' j'"
      by (simp add: filled_def)
    with set_cell_nth [OF d i(2) j(2) that(1), of ?v j'] False show ?thesis
      by auto
  qed
  with set_cell_dims [OF d i(2)] show ?thesis
    by (simp add: filled_def)
qed

lemma filled_row_done:
  assumes f: "filled a b dp i j" and j: "length b < j"
  shows "filled a b dp (i + 1) 1"
proof -
  have "dp ! i' ! j' = spec_dp a b i' j'"
    if "i' \<le> length a" "j' \<le> length b" "i' = 0 \<or> j' = 0 \<or> i' < i + 1 \<or> (i' = i + 1 \<and> j' < 1)"
    for i' j'
  proof -
    from that j have "i' = 0 \<or> j' = 0 \<or> i' < i \<or> (i' = i \<and> j' < j)"
      by linarith
    with f that show ?thesis
      by (simp add: filled_def)
  qed
  with f show ?thesis
    by (simp add: filled_def)
qed

lemma inner_loop_filled:
  "filled a b dp i j \<Longrightarrow> 0 < i \<Longrightarrow> i \<le> length a \<Longrightarrow> 0 < j \<Longrightarrow> n = length b \<Longrightarrow>
     filled a b (inner_loop a b n i j dp) (i + 1) 1"
proof (induction a b n i j dp rule: inner_loop.induct)
  case (1 a b n i j dp)
  show ?case
  proof (cases "j \<le> n")
    case True
    let ?dp = "set_cell dp i j (cell_value a b dp i j)"
    from True "1.prems" have "filled a b ?dp i (j + 1)"
      by (intro filled_step) simp_all
    from "1.IH" [OF True this] "1.prems"
    have "filled a b (inner_loop a b n i (j + 1) ?dp) (i + 1) 1"
      by simp
    moreover have "inner_loop a b n i j dp = inner_loop a b n i (j + 1) ?dp"
      using True by (subst inner_loop.simps) simp
    ultimately show ?thesis
      by simp
  next
    case False
    have "inner_loop a b n i j dp = dp"
      using False by (subst inner_loop.simps) simp
    moreover have "filled a b dp (i + 1) 1"
      using "1.prems"(1) by (rule filled_row_done) (use False "1.prems" in simp)
    ultimately show ?thesis
      by simp
  qed
qed

lemma outer_loop_filled:
  "filled a b dp i 1 \<Longrightarrow> 0 < i \<Longrightarrow> m = length a \<Longrightarrow> n = length b \<Longrightarrow>
     filled a b (outer_loop a b m n i dp) (m + 1) 1"
proof (induction a b m n i dp rule: outer_loop.induct)
  case (1 a b m n i dp)
  show ?case
  proof (cases "i \<le> m")
    case True
    let ?dp = "inner_loop a b n i 1 dp"
    from True "1.prems" have "filled a b ?dp (i + 1) 1"
      by (intro inner_loop_filled) simp_all
    from "1.IH" [OF True this] "1.prems"
    have "filled a b (outer_loop a b m n (i + 1) ?dp) (m + 1) 1"
      by simp
    moreover have "outer_loop a b m n i dp = outer_loop a b m n (i + 1) ?dp"
      using True by (subst outer_loop.simps) simp
    ultimately show ?thesis
      by simp
  next
    case False
    have "outer_loop a b m n i dp = dp"
      using False by (subst outer_loop.simps) simp
    moreover from False "1.prems" have "filled a b dp (m + 1) 1"
      by (auto simp add: filled_def)
    ultimately show ?thesis
      by simp
  qed
qed

lemma init_column_dims: "dims m n dp \<Longrightarrow> dims m n (init_column m i dp)"
  using init_column_spec by blast

lemma init_column_nth:
  "dims m n dp \<Longrightarrow> i' \<le> m \<Longrightarrow>
     init_column m i dp ! i' ! j' = (if j' = 0 \<and> i \<le> i' then i' else dp ! i' ! j')"
  using init_column_spec by blast

lemma init_row_dims: "dims m n dp \<Longrightarrow> dims m n (init_row n j dp)"
  using init_row_spec by blast

lemma init_row_nth:
  "dims m n dp \<Longrightarrow> i' \<le> m \<Longrightarrow> j' \<le> n \<Longrightarrow>
     init_row n j dp ! i' ! j' = (if i' = 0 \<and> j \<le> j' then j' else dp ! i' ! j')"
  using init_row_spec by blast

lemma initialised_filled:
  "filled a b (init_row (length b) 0 (init_column (length a) 0
      (replicate (length a + 1) (replicate (length b + 1) 0)))) 1 1"
proof -
  define z :: table where "z = replicate (length a + 1) (replicate (length b + 1) 0)"
  define c where "c = init_column (length a) 0 z"
  define r where "r = init_row (length b) 0 c"
  have dz: "dims (length a) (length b) z"
    by (simp add: dims_def z_def del: replicate_Suc)
  then have dc: "dims (length a) (length b) c"
    unfolding c_def by (rule init_column_dims)
  then have dr: "dims (length a) (length b) r"
    unfolding r_def by (rule init_row_dims)
  have "r ! i' ! j' = spec_dp a b i' j'"
    if le: "i' \<le> length a" "j' \<le> length b" and edge: "i' = 0 \<or> j' = 0" for i' j'
  proof (cases "i' = 0")
    case True
    have "r ! i' ! j' = (if i' = 0 \<and> 0 \<le> j' then j' else c ! i' ! j')"
      unfolding r_def using dc le by (rule init_row_nth)
    with True show ?thesis
      by simp
  next
    case False
    with edge have j': "j' = 0"
      by simp
    have "r ! i' ! j' = (if i' = 0 \<and> 0 \<le> j' then j' else c ! i' ! j')"
      unfolding r_def using dc le by (rule init_row_nth)
    moreover have "c ! i' ! j' = (if j' = 0 \<and> 0 \<le> i' then i' else z ! i' ! j')"
      unfolding c_def using dz le(1) by (rule init_column_nth)
    ultimately have "r ! i' ! j' = i'"
      using False j' by simp
    with j' show ?thesis
      by (simp add: spec_dp_column)
  qed
  with dr have "filled a b r 1 1"
    unfolding filled_def by blast
  then show ?thesis
    by (simp only: r_def c_def z_def)
qed

lemma lev_table_filled: "filled a b (lev_table a b) (length a + 1) 1"
  unfolding lev_table_def Let_def
  by (rule outer_loop_filled [OF initialised_filled]) simp_all

lemma lev_table_spec_dp:
  "i \<le> length a \<Longrightarrow> j \<le> length b \<Longrightarrow> lev_table a b ! i ! j = spec_dp a b i j"
  using lev_table_filled [of a b] by (simp add: filled_def)

lemma levenshtein_spec_dp: "levenshtein a b = spec_dp a b (length a) (length b)"
  by (simp add: levenshtein_def Let_def lev_table_spec_dp spec_dp_column)

section \<open>The recurrence and sequences of edits\<close>

lemma ed_Nil_right: "ed xs [] = length xs"
  by (cases xs) simp_all

lemma ed_refl: "ed xs xs = 0"
  by (induction xs) simp_all

lemma ed_sym: "ed xs ys = ed ys xs"
  by (induction xs ys rule: ed.induct) (simp_all add: ed_Nil_right min.commute min.left_commute eq_commute)

lemma ed_zero_iff: "ed xs ys = 0 \<longleftrightarrow> xs = ys"
  by (induction xs ys rule: ed.induct) auto

lemma ed_Cons_left: "ed (x # xs) ys \<le> ed xs ys + 1"
  by (cases ys) (simp_all add: ed_Nil_right)

lemma ed_Cons_right: "ed xs (y # ys) \<le> ed xs ys + 1"
  by (cases xs) simp_all

lemma ed_le_deletion: "ed (x # xs) (y # ys) \<le> ed xs (y # ys) + 1"
  by simp

lemma ed_le_insertion: "ed (x # xs) (y # ys) \<le> ed (x # xs) ys + 1"
  by simp

lemma ed_le_substitution: "ed (x # xs) (y # ys) \<le> ed xs ys + (if x = y then 0 else 1)"
  by simp

lemma le_min3_plus1:
  "l \<le> p + 1 \<Longrightarrow> l \<le> q + 1 \<Longrightarrow> l \<le> r + 1 \<Longrightarrow> l \<le> min (min p q) r + (1::nat)"
  by (simp add: min_def)

lemma ed_Cons_Cons:
  "ed (x # xs) (y # ys) =
     min (min (ed xs (y # ys) + 1) (ed (x # xs) ys + 1)) (ed xs ys + (if x = y then 0 else 1))"
  by simp

lemma ed_insert: "ed xs (u @ c # v) \<le> ed xs (u @ v) + 1"
proof (induction xs u rule: ed.induct)
  case (1 ys)
  show ?case by simp
next
  case (2 x xs)
  show ?case
    using ed_Cons_right [of "x # xs" c v] by simp
next
  case (3 x xs y ys)
  let ?l = "ed (x # xs) ((y # ys) @ c # v)"
  from ed_le_deletion [of x xs y "ys @ c # v"] "3.IH"(1)
  have a: "?l \<le> (ed xs (y # ys @ v) + 1) + 1"
    by simp
  from ed_le_insertion [of x xs y "ys @ c # v"] "3.IH"(2)
  have b: "?l \<le> (ed (x # xs) (ys @ v) + 1) + 1"
    by simp
  from ed_le_substitution [of x xs y "ys @ c # v"] "3.IH"(3)
  have c: "?l \<le> (ed xs (ys @ v) + (if x = y then 0 else 1)) + 1"
    by simp
  have "?l \<le> ed (x # xs) (y # ys @ v) + 1"
    unfolding ed_Cons_Cons [of x xs y "ys @ v"] using a b c by (rule le_min3_plus1)
  then show ?case
    by simp
qed

lemma ed_delete_head: "ed xs v \<le> ed xs (c # v) + 1"
proof (induction xs)
  case Nil
  show ?case by simp
next
  case (Cons x xs)
  let ?l = "ed (x # xs) v"
  from ed_Cons_left [of x xs v] Cons.IH have a: "?l \<le> (ed xs (c # v) + 1) + 1"
    by simp
  have b: "?l \<le> (ed (x # xs) v + 1) + 1"
    by simp
  from ed_Cons_left [of x xs v] have c: "?l \<le> (ed xs v + (if x = c then 0 else 1)) + 1"
    by simp
  show ?case
    unfolding ed_Cons_Cons [of x xs c v] using a b c by (rule le_min3_plus1)
qed

lemma ed_delete: "ed xs (u @ v) \<le> ed xs (u @ c # v) + 1"
proof (induction xs u rule: ed.induct)
  case (1 ys)
  show ?case by simp
next
  case (2 x xs)
  show ?case
    using ed_delete_head [of "x # xs" v c] by simp
next
  case (3 x xs y ys)
  let ?l = "ed (x # xs) ((y # ys) @ v)"
  from ed_le_deletion [of x xs y "ys @ v"] "3.IH"(1)
  have a: "?l \<le> (ed xs (y # ys @ c # v) + 1) + 1"
    by simp
  from ed_le_insertion [of x xs y "ys @ v"] "3.IH"(2)
  have b: "?l \<le> (ed (x # xs) (ys @ c # v) + 1) + 1"
    by simp
  from ed_le_substitution [of x xs y "ys @ v"] "3.IH"(3)
  have c: "?l \<le> (ed xs (ys @ c # v) + (if x = y then 0 else 1)) + 1"
    by simp
  have "?l \<le> ed (x # xs) (y # ys @ c # v) + 1"
    unfolding ed_Cons_Cons [of x xs y "ys @ c # v"] using a b c by (rule le_min3_plus1)
  then show ?case
    by simp
qed

lemma ed_substitute_head: "ed xs (d # v) \<le> ed xs (c # v) + 1"
proof (induction xs)
  case Nil
  show ?case by simp
next
  case (Cons x xs)
  let ?l = "ed (x # xs) (d # v)"
  from ed_le_deletion [of x xs d v] Cons.IH have a: "?l \<le> (ed xs (c # v) + 1) + 1"
    by simp
  from ed_le_insertion [of x xs d v] have b: "?l \<le> (ed (x # xs) v + 1) + 1"
    by simp
  have "?l \<le> ed xs v + (if x = d then 0 else 1)"
    by (rule ed_le_substitution)
  also have "\<dots> \<le> (ed xs v + (if x = c then 0 else 1)) + 1"
    by simp
  finally have c: "?l \<le> (ed xs v + (if x = c then 0 else 1)) + 1" .
  show ?case
    unfolding ed_Cons_Cons [of x xs c v] using a b c by (rule le_min3_plus1)
qed

lemma ed_substitute: "ed xs (u @ d # v) \<le> ed xs (u @ c # v) + 1"
proof (induction xs u rule: ed.induct)
  case (1 ys)
  show ?case by simp
next
  case (2 x xs)
  show ?case
    using ed_substitute_head [of "x # xs" d v c] by simp
next
  case (3 x xs y ys)
  let ?l = "ed (x # xs) ((y # ys) @ d # v)"
  from ed_le_deletion [of x xs y "ys @ d # v"] "3.IH"(1)
  have a: "?l \<le> (ed xs (y # ys @ c # v) + 1) + 1"
    by simp
  from ed_le_insertion [of x xs y "ys @ d # v"] "3.IH"(2)
  have b: "?l \<le> (ed (x # xs) (ys @ c # v) + 1) + 1"
    by simp
  from ed_le_substitution [of x xs y "ys @ d # v"] "3.IH"(3)
  have c: "?l \<le> (ed xs (ys @ c # v) + (if x = y then 0 else 1)) + 1"
    by simp
  have "?l \<le> ed (x # xs) (y # ys @ c # v) + 1"
    unfolding ed_Cons_Cons [of x xs y "ys @ c # v"] using a b c by (rule le_min3_plus1)
  then show ?case
    by simp
qed

lemma ed_edit1: "edit1 y z \<Longrightarrow> ed x z \<le> ed x y + 1"
  by (induction rule: edit1.induct) (rule ed_insert ed_delete ed_substitute)+

lemma ed_lower: "(edit1 ^^ n) x y \<Longrightarrow> ed x y \<le> n"
proof (induction n arbitrary: y)
  case 0
  then show ?case
    by (simp add: ed_refl)
next
  case (Suc n)
  then obtain w where w: "(edit1 ^^ n) x w" "edit1 w y"
    by auto
  from Suc.IH [OF w(1)] ed_edit1 [OF w(2), of x] show ?case
    by simp
qed


subsection \<open>A sequence of edits of that length exists\<close>

lemma edit1_Cons: "edit1 x y \<Longrightarrow> edit1 (c # x) (c # y)"
proof (induction rule: edit1.induct)
  case (insertion u v d)
  from edit1.insertion [of "c # u" v d] show ?case
    by simp
next
  case (deletion u d v)
  from edit1.deletion [of "c # u" d v] show ?case
    by simp
next
  case (substitution d e u v)
  from edit1.substitution [OF substitution, of "c # u" v] show ?case
    by simp
qed

lemma edits_Cons: "(edit1 ^^ n) x y \<Longrightarrow> (edit1 ^^ n) (c # x) (c # y)"
proof (induction n arbitrary: y)
  case 0
  then show ?case
    by simp
next
  case (Suc n)
  then obtain w where w: "(edit1 ^^ n) x w" "edit1 w y"
    by auto
  from Suc.IH [OF w(1)] edit1_Cons [OF w(2), of c] show ?case
    by auto
qed

lemma edits_first: "edit1 x w \<Longrightarrow> (edit1 ^^ n) w y \<Longrightarrow> (edit1 ^^ (n + 1)) x y"
  using relpowp_Suc_I2 [of edit1 x w n y] by simp

lemma edits_from_Nil: "(edit1 ^^ length ys) [] ys"
proof (induction ys)
  case Nil
  show ?case
    by simp
next
  case (Cons y ys)
  from edit1.insertion [of "[]" "[]" y] have "edit1 [] [y]"
    by simp
  moreover from edits_Cons [OF Cons.IH, of y] have "(edit1 ^^ length ys) [y] (y # ys)"
    by simp
  ultimately have "(edit1 ^^ (length ys + 1)) [] (y # ys)"
    by (rule edits_first)
  then show ?case
    by simp
qed

lemma edits_to_Nil: "(edit1 ^^ length xs) xs []"
proof (induction xs)
  case Nil
  show ?case
    by simp
next
  case (Cons x xs)
  from edit1.deletion [of "[]" x xs] have "edit1 (x # xs) xs"
    by simp
  from edits_first [OF this Cons.IH] show ?case
    by simp
qed

lemma ed_reachable: "(edit1 ^^ ed xs ys) xs ys"
proof (induction xs ys rule: ed.induct)
  case (1 ys)
  show ?case
    by (simp add: edits_from_Nil)
next
  case (2 x xs)
  from edits_to_Nil [of "x # xs"] show ?case
    by simp
next
  case (3 x xs y ys)
  let ?d = "ed (x # xs) (y # ys)"
  let ?cost = "if x = y then 0 else (1::nat)"
  have "?d = ed xs (y # ys) + 1 \<or> ?d = ed (x # xs) ys + 1 \<or> ?d = ed xs ys + ?cost"
    unfolding ed_Cons_Cons by (simp add: min_def)
  then consider (del) "?d = ed xs (y # ys) + 1" | (ins) "?d = ed (x # xs) ys + 1"
    | (sub) "?d = ed xs ys + ?cost"
    by blast
  then show ?case
  proof cases
    case del
    from edit1.deletion [of "[]" x xs] have "edit1 (x # xs) xs"
      by simp
    from edits_first [OF this "3.IH"(1)] del show ?thesis
      by (simp del: ed.simps)
  next
    case ins
    from edit1.insertion [of "[]" "x # xs" y] have "edit1 (x # xs) (y # x # xs)"
      by simp
    from edits_first [OF this edits_Cons [OF "3.IH"(2), of y]] ins show ?thesis
      by (simp del: ed.simps)
  next
    case sub
    show ?thesis
    proof (cases "x = y")
      case True
      with sub edits_Cons [OF "3.IH"(3), of y] show ?thesis
        by (simp del: ed.simps)
    next
      case False
      from edit1.substitution [OF False, of "[]" xs] have "edit1 (x # xs) (y # xs)"
        by simp
      from edits_first [OF this edits_Cons [OF "3.IH"(3), of y]] sub False show ?thesis
        by (simp del: ed.simps)
    qed
  qed
qed

subsection \<open>Reading the strings backwards\<close>

lemma edit1_rev: "edit1 x y \<Longrightarrow> edit1 (rev x) (rev y)"
proof (induction rule: edit1.induct)
  case (insertion u v c)
  from edit1.insertion [of "rev v" "rev u" c] show ?case
    by simp
next
  case (deletion u c v)
  from edit1.deletion [of "rev v" c "rev u"] show ?case
    by simp
next
  case (substitution c d u v)
  from edit1.substitution [OF substitution, of "rev v" "rev u"] show ?case
    by simp
qed

lemma edits_rev: "(edit1 ^^ n) x y \<Longrightarrow> (edit1 ^^ n) (rev x) (rev y)"
proof (induction n arbitrary: y)
  case 0
  then show ?case
    by simp
next
  case (Suc n)
  then obtain w where w: "(edit1 ^^ n) x w" "edit1 w y"
    by auto
  from Suc.IH [OF w(1)] edit1_rev [OF w(2)] show ?case
    by auto
qed

lemma spec_dp_ed:
  "i \<le> length a \<Longrightarrow> j \<le> length b \<Longrightarrow> spec_dp a b i j = ed (rev (take i a)) (rev (take j b))"
proof (induction a b i j rule: spec_dp.induct)
  case (1 a b j)
  then show ?case
    by simp
next
  case (2 a b i)
  then show ?case
    by (simp add: ed_Nil_right)
next
  case (3 a b i j)
  from "3.prems" have ta: "rev (take (Suc i) a) = a ! i # rev (take i a)"
    and tb: "rev (take (Suc j) b) = b ! j # rev (take j b)"
    by (simp_all add: take_Suc_conv_app_nth)
  from "3.prems" "3.IH" ta tb
  have "spec_dp a b i (Suc j) = ed (rev (take i a)) (b ! j # rev (take j b))"
    and "spec_dp a b (Suc i) j = ed (a ! i # rev (take i a)) (rev (take j b))"
    and "spec_dp a b i j = ed (rev (take i a)) (rev (take j b))"
    by simp_all
  then show ?case
    unfolding ta tb ed_Cons_Cons by simp
qed

lemma levenshtein_ed: "levenshtein a b = ed (rev a) (rev b)"
  by (simp add: levenshtein_spec_dp spec_dp_ed)

lemma levenshtein_prefixes:
  assumes "i \<le> length a" "j \<le> length b"
  shows "levenshtein (take i a) (take j b) = spec_dp a b i j"
proof -
  from assms have "length (take i a) = i" "length (take j b) = j"
    by simp_all
  then have "levenshtein (take i a) (take j b) = ed (rev (take i a)) (rev (take j b))"
    by (simp only: levenshtein_ed)
  with assms show ?thesis
    by (simp add: spec_dp_ed)
qed


section \<open>levenshtein is the edit distance\<close>

text \<open>
  C2. \<open>levenshtein a b\<close> is the classic edit distance: \<open>a\<close> is turned into \<open>b\<close> by that
  many single-unit insertions, deletions and substitutions, and by no fewer. It has the
  base cases \<open>levenshtein [] b = length b\<close> and \<open>levenshtein a [] = length a\<close>, and over
  the prefixes of \<open>a\<close> and \<open>b\<close> it satisfies the recurrence of the table, whose cell
  \<open>dp[i][j]\<close> is the distance between the first \<open>i\<close> units of \<open>a\<close> and the first \<open>j\<close>
  units of \<open>b\<close>. It is symmetric, \<open>levenshtein a a = 0\<close>, the distance from
  \<^verbatim>\<open>abcd\<close> to \<^verbatim>\<open>abcf\<close> is 1 and the distance from \<^verbatim>\<open>kitten\<close> to \<^verbatim>\<open>sitting\<close> is 3.
\<close>

theorem levenshtein_is_edit_distance:
  "(edit1 ^^ levenshtein a b) a b
   \<and> (\<forall>n. (edit1 ^^ n) a b \<longrightarrow> levenshtein a b \<le> n)
   \<and> levenshtein [] b = length b
   \<and> levenshtein a [] = length a
   \<and> (\<forall>i j. i < length a \<and> j < length b \<longrightarrow>
         levenshtein (take (Suc i) a) (take (Suc j) b)
           = min (min (levenshtein (take i a) (take (Suc j) b) + 1)
                      (levenshtein (take (Suc i) a) (take j b) + 1))
                 (levenshtein (take i a) (take j b) + (if a ! i = b ! j then 0 else 1)))
   \<and> (\<forall>i j. i \<le> length a \<and> j \<le> length b \<longrightarrow>
         lev_table a b ! i ! j = levenshtein (take i a) (take j b))
   \<and> levenshtein a b = spec_dp a b (length a) (length b)
   \<and> levenshtein a b = levenshtein b a
   \<and> levenshtein a a = 0
   \<and> levenshtein (str ''abcd'') (str ''abcf'') = 1
   \<and> levenshtein (str ''kitten'') (str ''sitting'') = 3"
proof (intro conjI allI impI)
  show "(edit1 ^^ levenshtein a b) a b"
    using edits_rev [OF ed_reachable [of "rev a" "rev b"]] by (simp add: levenshtein_ed)
next
  fix n assume "(edit1 ^^ n) a b"
  then have "(edit1 ^^ n) (rev a) (rev b)"
    by (rule edits_rev)
  then show "levenshtein a b \<le> n"
    unfolding levenshtein_ed by (rule ed_lower)
next
  show "levenshtein [] b = length b"
    by (simp add: levenshtein_def)
next
  show "levenshtein a [] = length a"
    by (simp add: levenshtein_def Let_def)
next
  fix i j assume ij: "i < length a \<and> j < length b"
  then have "levenshtein (take (Suc i) a) (take (Suc j) b) = spec_dp a b (Suc i) (Suc j)"
    and "levenshtein (take i a) (take (Suc j) b) = spec_dp a b i (Suc j)"
    and "levenshtein (take (Suc i) a) (take j b) = spec_dp a b (Suc i) j"
    and "levenshtein (take i a) (take j b) = spec_dp a b i j"
    by (simp_all only: levenshtein_prefixes Suc_le_eq less_imp_le)
  then show "levenshtein (take (Suc i) a) (take (Suc j) b)
           = min (min (levenshtein (take i a) (take (Suc j) b) + 1)
                      (levenshtein (take (Suc i) a) (take j b) + 1))
                 (levenshtein (take i a) (take j b) + (if a ! i = b ! j then 0 else 1))"
    by (simp only: spec_dp.simps)
next
  fix i j assume "i \<le> length a \<and> j \<le> length b"
  then show "lev_table a b ! i ! j = levenshtein (take i a) (take j b)"
    by (simp add: levenshtein_prefixes lev_table_spec_dp)
next
  show "levenshtein a b = spec_dp a b (length a) (length b)"
    by (rule levenshtein_spec_dp)
next
  show "levenshtein a b = levenshtein b a"
    unfolding levenshtein_ed by (rule ed_sym)
next
  show "levenshtein a a = 0"
    by (simp add: levenshtein_ed ed_refl)
next
  show "levenshtein (str ''abcd'') (str ''abcf'') = 1"
    by code_simp
next
  show "levenshtein (str ''kitten'') (str ''sitting'') = 3"
    by code_simp
qed

theorem levenshtein_is_edit_distance_witness:
  "(edit1 ^^ 1) (str ''abcd'') (str ''abcf'')
   \<and> levenshtein (str ''abcd'') (str ''abcf'') \<le> 1
   \<and> levenshtein (str ''abcd'') (str ''abcf'')
       = min (min (levenshtein (str ''abc'') (str ''abcf'') + 1)
                  (levenshtein (str ''abcd'') (str ''abc'') + 1))
             (levenshtein (str ''abc'') (str ''abc'') + 1)
   \<and> lev_table (str ''abcd'') (str ''abcf'') ! 4 ! 4
       = levenshtein (str ''abcd'') (str ''abcf'')"
proof -
  let ?a = "str ''abcd''" and ?b = "str ''abcf''"
  note inst = levenshtein_is_edit_distance [of ?a ?b]
  have "(0x64 :: code_unit) \<noteq> 0x66"
    by simp
  from edit1.substitution [OF this, of "str ''abc''" "[]"]
  have "edit1 ?a ?b"
    by (simp add: str_def)
  then have step: "(edit1 ^^ 1) ?a ?b"
    by auto
  with inst have le: "levenshtein ?a ?b \<le> 1"
    by blast
  have len: "3 < length ?a \<and> 3 < length ?b" "4 \<le> length ?a \<and> 4 \<le> length ?b"
    by (simp_all add: str_def)
  have takes: "take (Suc 3) ?a = ?a" "take (Suc 3) ?b = ?b" "take 4 ?a = ?a" "take 4 ?b = ?b"
    "take 3 ?a = str ''abc''" "take 3 ?b = str ''abc''" "?a ! 3 \<noteq> ?b ! 3"
    by (simp_all add: str_def)
  from inst len(1)
  have "levenshtein (take (Suc 3) ?a) (take (Suc 3) ?b)
           = min (min (levenshtein (take 3 ?a) (take (Suc 3) ?b) + 1)
                      (levenshtein (take (Suc 3) ?a) (take 3 ?b) + 1))
                 (levenshtein (take 3 ?a) (take 3 ?b) + (if ?a ! 3 = ?b ! 3 then 0 else 1))"
    by blast
  with takes have rec: "levenshtein ?a ?b
       = min (min (levenshtein (str ''abc'') ?b + 1) (levenshtein ?a (str ''abc'') + 1))
             (levenshtein (str ''abc'') (str ''abc'') + 1)"
    by (simp only: if_False)
  from inst len(2) have "lev_table ?a ?b ! 4 ! 4 = levenshtein (take 4 ?a) (take 4 ?b)"
    by blast
  then have cell: "lev_table ?a ?b ! 4 ! 4 = levenshtein ?a ?b"
    by (simp only: takes(3) takes(4))
  from step le rec cell show ?thesis
    by blast
qed

text \<open>
  C9. \<open>levenshtein a b = 0\<close> if and only if \<open>a = b\<close>.
\<close>

theorem levenshtein_zero_iff:
  "levenshtein a b = 0 \<longleftrightarrow> a = b"
  by (simp add: levenshtein_ed ed_zero_iff)

theorem levenshtein_zero_iff_witness:
  "levenshtein (str ''sk-A'') (str ''sk-A'') = 0 \<and> levenshtein (str ''sk-A'') (str ''sk-B'') \<noteq> 0"
  using levenshtein_zero_iff [of "str ''sk-A''" "str ''sk-A''"]
        levenshtein_zero_iff [of "str ''sk-A''" "str ''sk-B''"]
  by (simp add: str_def)

end
